theory Spec2Isabelle
  imports Complex_Main
begin

section \<open>Data model of tictactoe.py\<close>

text \<open>
  The board is a Python list of nine one-character strings (\<open>"_"\<close>, \<open>"X"\<close>, \<open>"O"\<close>),
  modelled as a list of strings. The Q-table is a dictionary from string keys to floats,
  modelled as a map into the reals: floating-point rounding is idealised, every arithmetic
  operation is the exact one. Exceptions are values of the type \<open>error\<close>.
\<close>

datatype error = IndexError | ValueError

type_synonym board = "string list"
type_synonym qtable = "string \<rightharpoonup> real"
type_synonym history = "(string \<times> nat) list"

text \<open>
  The module \<open>random\<close>: the generator state is an infinite sequence of raw draws.
  \<open>random.random()\<close> is a 53-bit integer divided by \<open>2 ^ 53\<close>, and
  \<open>random.choice(seq)\<close> is \<open>seq[randbelow(len(seq))]\<close>, raising IndexError on an
  empty sequence.
\<close>

type_synonym rng = "nat \<Rightarrow> nat"

definition rng_next :: "rng \<Rightarrow> rng" where
  "rng_next g = (\<lambda>n. g (Suc n))"

definition random_random :: "rng \<Rightarrow> real \<times> rng" where
  "random_random g = (real (g 0 mod 2 ^ 53) / 2 ^ 53, rng_next g)"

definition randbelow :: "nat \<Rightarrow> rng \<Rightarrow> nat \<times> rng" where
  "randbelow n g = (g 0 mod n, rng_next g)"

definition random_choice :: "'a list \<Rightarrow> rng \<Rightarrow> error + ('a \<times> rng)" where
  "random_choice seq g =
     (if seq = [] then Inl IndexError
      else Inr (seq ! fst (randbelow (length seq) g), snd (randbelow (length seq) g)))"

subsection \<open>Hyperparameters\<close>

definition ALPHA :: real where "ALPHA = 3 / 10"
definition GAMMA :: real where "GAMMA = 9 / 10"
definition EPSILON :: real where "EPSILON = 2 / 10"
definition MIN_EPSILON :: real where "MIN_EPSILON = 5 / 100"
definition EPSILON_DECAY :: real where "EPSILON_DECAY = 99995 / 100000"

subsection \<open>List access as Python does it\<close>

text \<open>
  Every index the program uses comes from \<open>enumerate\<close> or from a literal, so it is a
  natural number; reading or writing at or beyond the length raises IndexError.
\<close>

definition get_item :: "'a list \<Rightarrow> nat \<Rightarrow> error + 'a" where
  "get_item xs i = (if i < length xs then Inr (xs ! i) else Inl IndexError)"

definition set_item :: "'a list \<Rightarrow> nat \<Rightarrow> 'a \<Rightarrow> error + 'a list" where
  "set_item xs i v = (if i < length xs then Inr (xs[i := v]) else Inl IndexError)"

subsection \<open>Helper functions: check_win and is_draw\<close>

definition lines :: "nat list list" where
  "lines = [[0, 1, 2], [3, 4, 5], [6, 7, 8],
            [0, 3, 6], [1, 4, 7], [2, 5, 8],
            [0, 4, 8], [2, 4, 6]]"

text \<open>\<open>all(board[i] == symbol for i in line)\<close>, stopping at the first cell that differs.\<close>

fun all_cells :: "board \<Rightarrow> string \<Rightarrow> nat list \<Rightarrow> error + bool" where
  "all_cells board symbol [] = Inr True"
| "all_cells board symbol (i # line) =
     (case get_item board i of
        Inl e \<Rightarrow> Inl e
      | Inr c \<Rightarrow> if c = symbol then all_cells board symbol line else Inr False)"

text \<open>\<open>any(... for line in lines)\<close>, stopping at the first complete line.\<close>

fun any_line :: "board \<Rightarrow> string \<Rightarrow> nat list list \<Rightarrow> error + bool" where
  "any_line board symbol [] = Inr False"
| "any_line board symbol (line # rest) =
     (case all_cells board symbol line of
        Inl e \<Rightarrow> Inl e
      | Inr w \<Rightarrow> if w then Inr True else any_line board symbol rest)"

definition check_win :: "board \<Rightarrow> string \<Rightarrow> error + bool" where
  "check_win board symbol = any_line board symbol lines"

definition is_draw :: "board \<Rightarrow> bool" where
  "is_draw board = (''_'' \<notin> set board)"

text \<open>
  The winning condition in the spec's words: some one of the eight lines is entirely
  \<open>symbol\<close>. On a board of nine cells \<open>check_win\<close> computes it (lemma \<open>check_win_is_win\<close>).
\<close>

definition is_win :: "board \<Rightarrow> string \<Rightarrow> bool" where
  "is_win board symbol = (\<exists>line \<in> set lines. \<forall>i \<in> set line. board ! i = symbol)"

subsection \<open>QLearningPlayer\<close>

text \<open>\<open>str(a)\<close> for a non-negative integer: its decimal digits.\<close>

definition digit_char :: "nat \<Rightarrow> char" where
  "digit_char d = ''0123456789'' ! d"

fun str_nat :: "nat \<Rightarrow> string" where
  "str_nat n = (if n < 10 then [digit_char n] else str_nat (n div 10) @ [digit_char (n mod 10)])"

declare str_nat.simps [simp del]

text \<open>The key \<open>f"{state}:{a}"\<close> and the lookup \<open>self.q.get(key, 0)\<close>.\<close>

definition qkey :: "string \<Rightarrow> nat \<Rightarrow> string" where
  "qkey state a = state @ '':'' @ str_nat a"

definition q_get :: "qtable \<Rightarrow> string \<Rightarrow> real" where
  "q_get q key = (case q key of None \<Rightarrow> 0 | Some v \<Rightarrow> v)"

text \<open>\<open>max(xs)\<close> raises ValueError on an empty sequence; \<open>max(xs, default=d)\<close> returns d.\<close>

definition py_max :: "real list \<Rightarrow> error + real" where
  "py_max xs = (case xs of [] \<Rightarrow> Inl ValueError | x # rest \<Rightarrow> Inr (foldl max x rest))"

definition py_max_default :: "real list \<Rightarrow> real \<Rightarrow> real" where
  "py_max_default xs d = (case xs of [] \<Rightarrow> d | x # rest \<Rightarrow> foldl max x rest)"

definition get_state :: "board \<Rightarrow> string" where
  "get_state board = concat board"

definition get_valid_actions :: "board \<Rightarrow> nat list" where
  "get_valid_actions board = map fst (filter (\<lambda>(i, cell). cell = ''_'') (enumerate 0 board))"

text \<open>
  \<open>choose_action\<close> reads the table \<open>self.q\<close> and the global \<open>EPSILON\<close> (the argument
  \<open>eps\<close>), and draws from the generator; \<open>random.random()\<close> is only called when
  \<open>explore\<close> is true, as \<open>and\<close> evaluates its right operand only then.
\<close>

definition choose_action ::
  "qtable \<Rightarrow> real \<Rightarrow> board \<Rightarrow> bool \<Rightarrow> rng \<Rightarrow> error + (nat option \<times> rng)" where
  "choose_action q eps board explore g =
     (let state = get_state board;
          actions = get_valid_actions board
      in if actions = [] then Inr (None, g)
         else if explore \<and> fst (random_random g) < eps then
           (case random_choice actions (snd (random_random g)) of
              Inl e \<Rightarrow> Inl e
            | Inr (a, g') \<Rightarrow> Inr (Some a, g'))
         else
           (let g1 = (if explore then snd (random_random g) else g);
                q_values = map (\<lambda>a. q_get q (qkey state a)) actions
            in case py_max q_values of
                 Inl e \<Rightarrow> Inl e
               | Inr max_q \<Rightarrow>
                   (let best_actions = map fst (filter (\<lambda>(a, v). v = max_q) (zip actions q_values))
                    in case random_choice best_actions g1 of
                         Inl e \<Rightarrow> Inl e
                       | Inr (a, g') \<Rightarrow> Inr (Some a, g'))))"

definition update_q :: "qtable \<Rightarrow> string \<Rightarrow> nat \<Rightarrow> real \<Rightarrow> string \<Rightarrow> nat list \<Rightarrow> qtable" where
  "update_q q old_state action reward next_state next_actions =
     (let key = qkey old_state action;
          old_q = q_get q key;
          next_q = py_max_default (map (\<lambda>a. q_get q (qkey next_state a)) next_actions) 0;
          new_q = old_q + ALPHA * (reward + GAMMA * next_q - old_q)
      in q(key \<mapsto> new_q))"

text \<open>
  The action selection in the spec's words: the estimate of an action, and the valid
  actions whose estimate no other valid action exceeds.
\<close>

definition estimate :: "qtable \<Rightarrow> board \<Rightarrow> nat \<Rightarrow> real" where
  "estimate q board a = q_get q (qkey (get_state board) a)"

definition tied_best_actions :: "qtable \<Rightarrow> board \<Rightarrow> nat list" where
  "tied_best_actions q board =
     filter (\<lambda>a. \<forall>a' \<in> set (get_valid_actions board). estimate q board a' \<le> estimate q board a)
       (get_valid_actions board)"

subsection \<open>The rule-based opponent\<close>

text \<open>
  The two scans of \<open>computer_move\<close> (\<open>for i in empty: board[i] = symbol; if
  check_win(board, symbol): board[i] = "_"; return i; board[i] = "_"\<close>). The board is
  mutated in place, so it is threaded through and returned.
\<close>

fun try_cells :: "board \<Rightarrow> string \<Rightarrow> nat list \<Rightarrow> error + (nat option \<times> board)" where
  "try_cells board symbol [] = Inr (None, board)"
| "try_cells board symbol (i # rest) =
     (case set_item board i symbol of
        Inl e \<Rightarrow> Inl e
      | Inr b1 \<Rightarrow>
          (case check_win b1 symbol of
             Inl e \<Rightarrow> Inl e
           | Inr w \<Rightarrow>
               (case set_item b1 i ''_'' of
                  Inl e \<Rightarrow> Inl e
                | Inr b2 \<Rightarrow> if w then Inr (Some i, b2) else try_cells b2 symbol rest)))"

text \<open>\<open>for i in cells: if board[i] == "_": return i\<close>.\<close>

fun first_empty :: "board \<Rightarrow> nat list \<Rightarrow> error + nat option" where
  "first_empty board [] = Inr None"
| "first_empty board (i # rest) =
     (case get_item board i of
        Inl e \<Rightarrow> Inl e
      | Inr c \<Rightarrow> if c = ''_'' then Inr (Some i) else first_empty board rest)"

definition computer_move ::
  "board \<Rightarrow> string \<Rightarrow> string \<Rightarrow> rng \<Rightarrow> error + (nat option \<times> board \<times> rng)" where
  "computer_move board symbol player_symbol g =
     (let empty = map fst (filter (\<lambda>(i, cell). cell = ''_'') (enumerate 0 board))
      in if empty = [] then Inr (None, board, g)
         else
           case try_cells board symbol empty of
             Inl e \<Rightarrow> Inl e
           | Inr (Some i, b1) \<Rightarrow> Inr (Some i, b1, g)
           | Inr (None, b1) \<Rightarrow>
               (case try_cells b1 player_symbol empty of
                  Inl e \<Rightarrow> Inl e
                | Inr (Some i, b2) \<Rightarrow> Inr (Some i, b2, g)
                | Inr (None, b2) \<Rightarrow>
                    (case first_empty b2 [0, 2, 6, 8] of
                       Inl e \<Rightarrow> Inl e
                     | Inr (Some i) \<Rightarrow> Inr (Some i, b2, g)
                     | Inr None \<Rightarrow>
                         (case get_item b2 4 of
                            Inl e \<Rightarrow> Inl e
                          | Inr c \<Rightarrow>
                              if c = ''_'' then Inr (Some 4, b2, g)
                              else
                                (case first_empty b2 [1, 3, 5, 7] of
                                   Inl e \<Rightarrow> Inl e
                                 | Inr (Some i) \<Rightarrow> Inr (Some i, b2, g)
                                 | Inr None \<Rightarrow>
                                     (case random_choice empty g of
                                        Inl e \<Rightarrow> Inl e
                                      | Inr (i, g') \<Rightarrow> Inr (Some i, b2, g')))))))"

text \<open>
  The opponent's priority order in the spec's words: the first empty cell (ascending)
  that completes a line for the opponent, else the first that would complete a line for
  the agent, else the first empty corner of 0, 2, 6, 8, else the centre, else the first
  empty side of 1, 3, 5, 7.
\<close>

definition computer_move_spec :: "board \<Rightarrow> string \<Rightarrow> string \<Rightarrow> nat option" where
  "computer_move_spec board symbol player_symbol =
     (let empty = filter (\<lambda>i. board ! i = ''_'') [0..<length board]
      in case find (\<lambda>i. is_win (board[i := symbol]) symbol) empty of
           Some i \<Rightarrow> Some i
         | None \<Rightarrow>
             (case find (\<lambda>i. is_win (board[i := player_symbol]) player_symbol) empty of
                Some i \<Rightarrow> Some i
              | None \<Rightarrow>
                  (case find (\<lambda>i. board ! i = ''_'') [0, 2, 6, 8] of
                     Some i \<Rightarrow> Some i
                   | None \<Rightarrow>
                       if board ! 4 = ''_'' then Some 4
                       else find (\<lambda>i. board ! i = ''_'') [1, 3, 5, 7])))"

subsection \<open>Trainer\<close>

text \<open>
  The state an episode reads and writes: the attributes \<open>self.board\<close>, \<open>self.q_table\<close>
  (the player's table is this same dictionary) and \<open>self.stats\<close>, the global \<open>EPSILON\<close>
  and the state of the module \<open>random\<close>. The display calls, the pacing sleep and the
  periodic \<open>save_json\<close> do not touch this state and are left out.
\<close>

record stats =
  games :: int
  wins :: int
  draws :: int

record trainer =
  self_board :: board
  self_q_table :: qtable
  self_stats :: stats
  epsilon :: real
  random_state :: rng

datatype flow = Continue | Break

text \<open>\<open>for s, a in pairs: player.update_q(s, a, reward, next_state, [])\<close>.\<close>

fun update_each :: "qtable \<Rightarrow> history \<Rightarrow> real \<Rightarrow> string \<Rightarrow> qtable" where
  "update_each q [] reward next_state = q"
| "update_each q ((s, a) # rest) reward next_state =
     update_each (update_q q s a reward next_state []) rest reward next_state"

text \<open>The three terminal branches of \<open>play_one_game\<close>.\<close>

definition ai_wins :: "trainer \<Rightarrow> history \<Rightarrow> trainer" where
  "ai_wins tr history =
     tr\<lparr>self_q_table :=
          update_each (self_q_table tr) (rev history) 1 (get_state (self_board tr)),
        self_stats := (self_stats tr)\<lparr>wins := wins (self_stats tr) + 1,
                                        games := games (self_stats tr) + 1\<rparr>\<rparr>"

definition draw_game :: "trainer \<Rightarrow> history \<Rightarrow> trainer" where
  "draw_game tr history =
     tr\<lparr>self_q_table :=
          update_each (self_q_table tr) history (2 / 10) (get_state (self_board tr)),
        self_stats := (self_stats tr)\<lparr>draws := draws (self_stats tr) + 1,
                                        games := games (self_stats tr) + 1\<rparr>\<rparr>"

definition ai_loses :: "trainer \<Rightarrow> history \<Rightarrow> error + trainer" where
  "ai_loses tr history =
     (if history = [] then Inl IndexError
      else
        (case last history of
           (last_state, last_action) \<Rightarrow>
             Inr (tr\<lparr>self_q_table :=
                       update_q (self_q_table tr) last_state last_action (- 1)
                         (get_state (self_board tr)) [],
                     self_stats := (self_stats tr)\<lparr>games := games (self_stats tr) + 1\<rparr>\<rparr>)))"

text \<open>The agent's half of one iteration of \<open>while True\<close> (the player's symbol is X).\<close>

definition agent_turn :: "trainer \<Rightarrow> history \<Rightarrow> error + (flow \<times> trainer \<times> history)" where
  "agent_turn tr history =
     (let state = get_state (self_board tr)
      in case choose_action (self_q_table tr) (epsilon tr) (self_board tr) True (random_state tr) of
           Inl e \<Rightarrow> Inl e
         | Inr (None, g) \<Rightarrow> Inr (Break, tr\<lparr>random_state := g\<rparr>, history)
         | Inr (Some action, g) \<Rightarrow>
             (case set_item (self_board tr) action ''X'' of
                Inl e \<Rightarrow> Inl e
              | Inr b \<Rightarrow>
                  (let history1 = history @ [(state, action)];
                       tr1 = tr\<lparr>self_board := b, random_state := g\<rparr>
                   in case check_win b ''X'' of
                        Inl e \<Rightarrow> Inl e
                      | Inr w \<Rightarrow>
                          if w then Inr (Break, ai_wins tr1 history1, history1)
                          else if is_draw b then Inr (Break, draw_game tr1 history1, history1)
                          else Inr (Continue, tr1, history1))))"

text \<open>The computer's half of the iteration.\<close>

definition computer_turn :: "trainer \<Rightarrow> history \<Rightarrow> error + (flow \<times> trainer \<times> history)" where
  "computer_turn tr history =
     (case computer_move (self_board tr) ''O'' ''X'' (random_state tr) of
        Inl e \<Rightarrow> Inl e
      | Inr (None, b, g) \<Rightarrow> Inr (Break, tr\<lparr>self_board := b, random_state := g\<rparr>, history)
      | Inr (Some comp_action, b, g) \<Rightarrow>
          (case set_item b comp_action ''O'' of
             Inl e \<Rightarrow> Inl e
           | Inr b1 \<Rightarrow>
               (let tr1 = tr\<lparr>self_board := b1, random_state := g\<rparr>
                in case check_win b1 ''O'' of
                     Inl e \<Rightarrow> Inl e
                   | Inr w \<Rightarrow>
                       if w then
                         (case ai_loses tr1 history of
                            Inl e \<Rightarrow> Inl e
                          | Inr tr2 \<Rightarrow> Inr (Break, tr2, history))
                       else if is_draw b1 then Inr (Break, draw_game tr1 history, history)
                       else Inr (Continue, tr1, history))))"

definition loop_body :: "trainer \<Rightarrow> history \<Rightarrow> error + (flow \<times> trainer \<times> history)" where
  "loop_body tr history =
     (case agent_turn tr history of
        Inl e \<Rightarrow> Inl e
      | Inr (Break, tr1, history1) \<Rightarrow> Inr (Break, tr1, history1)
      | Inr (Continue, tr1, history1) \<Rightarrow> computer_turn tr1 history1)"

function play_loop :: "trainer \<Rightarrow> history \<Rightarrow> error + (trainer \<times> history)" where
  "play_loop tr history =
     (case loop_body tr history of
        Inl e \<Rightarrow> Inl e
      | Inr (Break, tr1, history1) \<Rightarrow> Inr (tr1, history1)
      | Inr (Continue, tr1, history1) \<Rightarrow> play_loop tr1 history1)"
  by pat_completeness auto

definition reset_board :: "trainer \<Rightarrow> trainer" where
  "reset_board tr = tr\<lparr>self_board := replicate 9 ''_''\<rparr>"

text \<open>
  One episode: the loop from a reset board and an empty history, then the decay of the
  exploration rate.
\<close>

definition play_one_game :: "trainer \<Rightarrow> error + trainer" where
  "play_one_game tr =
     (case play_loop (reset_board tr) [] of
        Inl e \<Rightarrow> Inl e
      | Inr (tr1, history) \<Rightarrow>
          Inr (tr1\<lparr>epsilon := max MIN_EPSILON (epsilon tr1 * EPSILON_DECAY)\<rparr>))"

text \<open>\<open>loop\<close> re-invoked by the scheduler: n episodes in a row.\<close>

fun train :: "nat \<Rightarrow> trainer \<Rightarrow> error + trainer" where
  "train 0 tr = Inr tr"
| "train (Suc n) tr =
     (case train n tr of
        Inl e \<Rightarrow> Inl e
      | Inr tr1 \<Rightarrow> play_one_game tr1)"

text \<open>
  \<open>Trainer.__init__\<close> when neither file exists: an empty table and zero counters; with
  it the module's initial \<open>EPSILON\<close> and a generator state.
\<close>

definition Trainer_init :: "rng \<Rightarrow> trainer" where
  "Trainer_init g =
     \<lparr>self_board = [], self_q_table = Map.empty,
      self_stats = \<lparr>games = 0, wins = 0, draws = 0\<rparr>,
      epsilon = EPSILON, random_state = g\<rparr>"

section \<open>Properties of check_win and is_draw\<close>

lemma all_cells_pure:
  "\<forall>i \<in> set line. i < length b \<Longrightarrow> all_cells b s line = Inr (\<forall>i \<in> set line. b ! i = s)"
  by (induction line) (auto simp: get_item_def)

lemma any_line_pure:
  "\<forall>line \<in> set ls. \<forall>i \<in> set line. i < length b \<Longrightarrow>
   any_line b s ls = Inr (\<exists>line \<in> set ls. \<forall>i \<in> set line. b ! i = s)"
  by (induction ls) (auto simp: all_cells_pure)

lemma lines_in_range: "line \<in> set lines \<Longrightarrow> i \<in> set line \<Longrightarrow> i < 9"
  by (auto simp: lines_def)

lemma check_win_is_win: "9 \<le> length b \<Longrightarrow> check_win b s = Inr (is_win b s)"
  unfolding check_win_def is_win_def
  by (rule any_line_pure) (auto dest: lines_in_range)

text \<open>
  Claim C4 as stated fails: \<open>is_draw\<close> looks only for an empty cell, so on a full board
  with a completed line it still answers true. Here X holds the top row.
\<close>

theorem is_draw_full_won_board:
  "is_draw [''X'', ''X'', ''X'', ''O'', ''O'', ''X'', ''X'', ''O'', ''O''] \<and>
   check_win [''X'', ''X'', ''X'', ''O'', ''O'', ''X'', ''X'', ''O'', ''O''] ''X'' = Inr True"
  by (simp add: is_draw_def check_win_def lines_def get_item_def)

text \<open>
  Claim C4, amended: \<open>is_draw\<close> answers true exactly when no cell of the board is empty,
  whatever the lines hold; on a nine-cell board where the caller has found no win for
  either mark, this is the same as "no empty cell and neither mark has won".
\<close>

theorem is_draw_iff_full:
  "is_draw b = (\<forall>i < length b. b ! i \<noteq> ''_'') \<and>
   (length b = 9 \<longrightarrow> check_win b ''X'' = Inr False \<longrightarrow> check_win b ''O'' = Inr False \<longrightarrow>
      is_draw b = ((\<forall>i < length b. b ! i \<noteq> ''_'') \<and> \<not> is_win b ''X'' \<and> \<not> is_win b ''O''))"
proof -
  have full: "is_draw b = (\<forall>i < length b. b ! i \<noteq> ''_'')"
    unfolding is_draw_def by (metis in_set_conv_nth)
  show ?thesis
    using full by (auto simp: check_win_is_win)
qed

theorem is_draw_iff_full_witness:
  "length [''X'', ''O'', ''X'', ''X'', ''O'', ''O'', ''O'', ''X'', ''X''] = 9 \<and>
   check_win [''X'', ''O'', ''X'', ''X'', ''O'', ''O'', ''O'', ''X'', ''X''] ''X'' = Inr False \<and>
   check_win [''X'', ''O'', ''X'', ''X'', ''O'', ''O'', ''O'', ''X'', ''X''] ''O'' = Inr False \<and>
   is_draw [''X'', ''O'', ''X'', ''X'', ''O'', ''O'', ''O'', ''X'', ''X'']"
  using is_draw_iff_full [of "[''X'', ''O'', ''X'', ''X'', ''O'', ''O'', ''O'', ''X'', ''X'']"]
  by (simp add: is_draw_def check_win_def lines_def get_item_def)

section \<open>Properties of the Q-learning player\<close>

lemma foldl_max_Max: "foldl max x xs = Max (set (x # xs))" for x :: real
proof -
  have "foldl max x xs = fold max xs x"
    by (simp add: foldl_conv_fold max.commute)
  also have "\<dots> = Max (set (x # xs))"
    by (rule Max.set_eq_fold [symmetric])
  finally show ?thesis .
qed

lemma py_max_map: "xs \<noteq> [] \<Longrightarrow> py_max (map f xs) = Inr (Max (f ` set xs))"
  by (cases xs) (simp_all add: py_max_def foldl_max_Max)

lemma py_max_default_Nil: "py_max_default [] d = d"
  by (simp add: py_max_default_def)

lemma py_max_default_map:
  "py_max_default (map f xs) d = (if xs = [] then d else Max (f ` set xs))"
  by (cases xs) (simp_all add: py_max_default_def foldl_max_Max)

lemma enum_filter:
  "map fst (filter (\<lambda>(i, c). P c) (enumerate 0 xs)) = filter (\<lambda>i. P (xs ! i)) [0..<length xs]"
proof (induction xs rule: rev_induct)
  case Nil
  then show ?case by simp
next
  case (snoc x xs)
  have "filter (\<lambda>i. P ((xs @ [x]) ! i)) [0..<length xs] = filter (\<lambda>i. P (xs ! i)) [0..<length xs]"
    by (rule filter_cong) (auto simp: nth_append)
  with snoc show ?case
    by (simp add: enumerate_append_eq)
qed

lemma gva_filter: "get_valid_actions b = filter (\<lambda>i. b ! i = ''_'') [0..<length b]"
  unfolding get_valid_actions_def by (rule enum_filter)

lemma gva_set: "set (get_valid_actions b) = {i. i < length b \<and> b ! i = ''_''}"
  by (auto simp: gva_filter)

lemma gva_distinct: "distinct (get_valid_actions b)"
  by (simp add: gva_filter)

lemma gva_empty_iff: "get_valid_actions b = [] \<longleftrightarrow> ''_'' \<notin> set b"
proof -
  have "get_valid_actions b = [] \<longleftrightarrow> set (get_valid_actions b) = {}" by simp
  also have "\<dots> \<longleftrightarrow> ''_'' \<notin> set b"
    unfolding gva_set by (auto simp: in_set_conv_nth)
  finally show ?thesis .
qed

lemma zip_map_filter:
  "map fst (filter (\<lambda>(a, v). v = m) (zip xs (map f xs))) = filter (\<lambda>a. f a = m) xs"
  by (induction xs) auto

lemma tied_best_Max:
  "filter (\<lambda>a. estimate q b a = Max (estimate q b ` set (get_valid_actions b))) (get_valid_actions b)
     = tied_best_actions q b"
  unfolding tied_best_actions_def
proof (rule filter_cong [OF refl])
  fix a assume a: "a \<in> set (get_valid_actions b)"
  let ?S = "estimate q b ` set (get_valid_actions b)"
  have fin: "finite ?S" and ne: "?S \<noteq> {}" and mem: "estimate q b a \<in> ?S"
    using a by auto
  have "estimate q b a = Max ?S \<longleftrightarrow> (\<forall>v \<in> ?S. v \<le> estimate q b a)"
    using fin mem by (metis Max_eqI Max_ge)
  then show "(estimate q b a = Max ?S) = (\<forall>a' \<in> set (get_valid_actions b). estimate q b a' \<le> estimate q b a)"
    by auto
qed

lemma tied_best_nonempty: "get_valid_actions b \<noteq> [] \<Longrightarrow> tied_best_actions q b \<noteq> []"
proof -
  assume ne: "get_valid_actions b \<noteq> []"
  let ?S = "estimate q b ` set (get_valid_actions b)"
  have "Max ?S \<in> ?S" using ne by (intro Max_in) auto
  then obtain a where "a \<in> set (get_valid_actions b)" "estimate q b a = Max ?S" by auto
  then have "a \<in> set (filter (\<lambda>a. estimate q b a = Max ?S) (get_valid_actions b))" by simp
  then show ?thesis unfolding tied_best_Max by auto
qed

lemma tied_best_subset: "set (tied_best_actions q b) \<subseteq> set (get_valid_actions b)"
  by (auto simp: tied_best_actions_def)

lemma choose_action_none:
  "get_valid_actions b = [] \<Longrightarrow> choose_action q eps b explore g = Inr (None, g)"
  by (simp add: choose_action_def)

lemma choose_action_explore:
  "get_valid_actions b \<noteq> [] \<Longrightarrow> explore \<Longrightarrow> fst (random_random g) < eps \<Longrightarrow>
   choose_action q eps b explore g =
     (case random_choice (get_valid_actions b) (snd (random_random g)) of
        Inl e \<Rightarrow> Inl e | Inr (a, g') \<Rightarrow> Inr (Some a, g'))"
  by (simp add: choose_action_def)

lemma choose_action_exploit:
  "get_valid_actions b \<noteq> [] \<Longrightarrow> \<not> (explore \<and> fst (random_random g) < eps) \<Longrightarrow>
   choose_action q eps b explore g =
     (case random_choice (tied_best_actions q b) (if explore then snd (random_random g) else g) of
        Inl e \<Rightarrow> Inl e | Inr (a, g') \<Rightarrow> Inr (Some a, g'))"
proof -
  assume ne: "get_valid_actions b \<noteq> []" and nx: "\<not> (explore \<and> fst (random_random g) < eps)"
  have est: "(\<lambda>a. q_get q (qkey (get_state b) a)) = estimate q b"
    by (simp add: estimate_def fun_eq_iff)
  show ?thesis
    using ne nx
    by (auto simp: choose_action_def Let_def est py_max_map zip_map_filter tied_best_Max)
qed

lemma random_choice_nonempty:
  "xs \<noteq> [] \<Longrightarrow> random_choice xs g = Inr (xs ! (g 0 mod length xs), rng_next g)"
  by (simp add: random_choice_def randbelow_def)

lemma random_choice_mem:
  "random_choice xs g = Inr (a, g') \<Longrightarrow> a \<in> set xs"
  by (auto simp: random_choice_def randbelow_def split: if_splits)

text \<open>
  Claim C1: \<open>update_q\<close> stores under the key of (state, action) the value
  \<open>old + ALPHA * (reward + GAMMA * maxNext - old)\<close>, where \<open>old\<close> is the entry of the
  key or 0 when it is absent, \<open>maxNext\<close> is the largest entry over the next valid actions or
  0 when there are none, \<open>ALPHA = 0.3\<close> and \<open>GAMMA = 0.9\<close>; a terminal update with
  reward 1 from an absent entry stores 0.3.
\<close>

theorem update_q_stores:
  "update_q q state action reward next_state next_actions (qkey state action) =
     Some (q_get q (qkey state action) +
           ALPHA * (reward +
                    GAMMA * (if next_actions = [] then 0
                             else Max ((\<lambda>a. q_get q (qkey next_state a)) ` set next_actions)) -
                    q_get q (qkey state action))) \<and>
   ALPHA = 3 / 10 \<and> GAMMA = 9 / 10 \<and>
   (q (qkey state action) = None \<longrightarrow> q_get q (qkey state action) = 0) \<and>
   (\<forall>v. q (qkey state action) = Some v \<longrightarrow> q_get q (qkey state action) = v) \<and>
   (q (qkey state action) = None \<longrightarrow>
      update_q q state action 1 next_state [] (qkey state action) = Some (3 / 10))"
  by (simp add: update_q_def Let_def py_max_default_map py_max_default_Nil q_get_def ALPHA_def GAMMA_def)

theorem update_q_stores_witness:
  "Map.empty (qkey ''_________'' 4) = (None :: real option) \<and>
   update_q Map.empty ''_________'' 4 1 ''X___X___X'' [] ''_________:4'' = Some (3 / 10)"
proof -
  have k: "qkey ''_________'' 4 = ''_________:4''"
    by (simp add: qkey_def str_nat.simps digit_char_def)
  show ?thesis
    using update_q_stores [of Map.empty "''_________''" 4 1 "''X___X___X''" "[]"]
    by (simp add: k q_get_def ALPHA_def GAMMA_def)
qed






section \<open>Properties of the rule-based opponent\<close>

lemma set_item_Inr: "i < length xs \<Longrightarrow> set_item xs i v = Inr (xs[i := v])"
  by (simp add: set_item_def)

lemma get_item_Inr: "i < length xs \<Longrightarrow> get_item xs i = Inr (xs ! i)"
  by (simp add: get_item_def)

lemma update_revert: "b ! i = c \<Longrightarrow> b[i := s, i := c] = b"
  by (metis list_update_id list_update_overwrite)

lemma update_same: "b ! i = c \<Longrightarrow> b[i := c] = b"
  by (metis list_update_id)

lemma try_cells_find:
  "9 \<le> length b \<Longrightarrow> \<forall>i \<in> set cells. i < length b \<and> b ! i = ''_'' \<Longrightarrow>
   try_cells b s cells = Inr (find (\<lambda>i. is_win (b[i := s]) s) cells, b)"
  by (induction cells) (simp_all add: set_item_Inr check_win_is_win update_same)

lemma try_cells_frame:
  "try_cells b s cells = Inr (r, b') \<Longrightarrow> \<forall>i \<in> set cells. i < length b \<and> b ! i = ''_'' \<Longrightarrow>
   b' = b \<and> (\<forall>c. r = Some c \<longrightarrow> c \<in> set cells)"
proof (induction cells)
  case Nil
  then show ?case by simp
next
  case (Cons i cells)
  then show ?case
    by (auto simp: set_item_Inr update_same split: sum.splits if_splits)
qed

lemma first_empty_find:
  "\<forall>i \<in> set cells. i < length b \<Longrightarrow> first_empty b cells = Inr (find (\<lambda>i. b ! i = ''_'') cells)"
  by (induction cells) (simp_all add: get_item_Inr)

lemma first_empty_Some:
  "first_empty b cells = Inr (Some c) \<Longrightarrow> c < length b \<and> b ! c = ''_''"
  by (induction cells) (auto simp: get_item_def split: if_splits)

lemma empty_cells_gva:
  "map fst (filter (\<lambda>(i, cell). cell = ''_'') (enumerate 0 b)) = get_valid_actions b"
  by (simp add: get_valid_actions_def)


lemma computer_move_frame:
  assumes "computer_move b s p g = Inr (r, b', g')"
  shows "b' = b \<and> (case r of None \<Rightarrow> ''_'' \<notin> set b \<and> g' = g
                         | Some c \<Rightarrow> c < length b \<and> b ! c = ''_'')"
proof (cases "get_valid_actions b = []")
  case True
  with assms show ?thesis
    by (simp add: computer_move_def empty_cells_gva gva_empty_iff)
next
  case False
  have cells: "\<forall>i \<in> set (get_valid_actions b). i < length b \<and> b ! i = ''_''"
    by (simp add: gva_set)
  from False have ne: "''_'' \<in> set b" by (simp add: gva_empty_iff)
  show ?thesis
  proof (cases "try_cells b s (get_valid_actions b)")
    case (Inl e)
    with assms False show ?thesis by (simp add: computer_move_def empty_cells_gva)
  next
    case (Inr x)
    obtain r1 b1 where x: "x = (r1, b1)" by (cases x)
    from try_cells_frame [OF Inr [unfolded x] cells]
    have b1: "b1 = b" and r1: "\<forall>c. r1 = Some c \<longrightarrow> c \<in> set (get_valid_actions b)" by auto
    show ?thesis
    proof (cases r1)
      case (Some c)
      with assms False Inr x b1 r1 show ?thesis
        by (auto simp: computer_move_def empty_cells_gva gva_set)
    next
      case None
      show ?thesis
      proof (cases "try_cells b p (get_valid_actions b)")
        case (Inl e)
        with assms False Inr None x b1 show ?thesis
          by (simp add: computer_move_def empty_cells_gva)
      next
        case Inr2: (Inr y)
        obtain r2 b2 where y: "y = (r2, b2)" by (cases y)
        from try_cells_frame [OF Inr2 [unfolded y] cells]
        have b2: "b2 = b" and r2: "\<forall>c. r2 = Some c \<longrightarrow> c \<in> set (get_valid_actions b)" by auto
        show ?thesis
        proof (cases r2)
          case (Some c)
          with assms False Inr None x b1 Inr2 y b2 r2 show ?thesis
            by (auto simp: computer_move_def empty_cells_gva gva_set)
        next
          case None2: None
          from assms False Inr None x b1 Inr2 y b2 None2
          have rest: "(case first_empty b [0, 2, 6, 8] of
                       Inl e \<Rightarrow> Inl e
                     | Inr (Some i) \<Rightarrow> Inr (Some i, b, g)
                     | Inr None \<Rightarrow>
                         (case get_item b 4 of
                            Inl e \<Rightarrow> Inl e
                          | Inr c \<Rightarrow>
                              if c = ''_'' then Inr (Some 4, b, g)
                              else
                                (case first_empty b [1, 3, 5, 7] of
                                   Inl e \<Rightarrow> Inl e
                                 | Inr (Some i) \<Rightarrow> Inr (Some i, b, g)
                                 | Inr None \<Rightarrow>
                                     (case random_choice (get_valid_actions b) g of
                                        Inl e \<Rightarrow> Inl e
                                      | Inr (i, g') \<Rightarrow> Inr (Some i, b, g'))))) = Inr (r, b', g')"
            by (simp add: computer_move_def empty_cells_gva)
          show ?thesis
          proof (cases "first_empty b [0, 2, 6, 8]")
            case (Inl e)
            with rest show ?thesis by (auto simp del: first_empty.simps)
          next
            case corners: (Inr c1)
            show ?thesis
            proof (cases c1)
              case (Some i)
              with rest corners first_empty_Some [of b "[0, 2, 6, 8]" i] show ?thesis by (auto simp del: first_empty.simps)
            next
              case nc: None
              show ?thesis
              proof (cases "4 < length b")
                case False
                with rest corners nc show ?thesis by (auto simp: get_item_def simp del: first_empty.simps)
              next
                case True
                show ?thesis
                proof (cases "b ! 4 = ''_''")
                  case centre: True
                  with rest corners nc True show ?thesis by (auto simp: get_item_def simp del: first_empty.simps)
                next
                  case centre: False
                  show ?thesis
                  proof (cases "first_empty b [1, 3, 5, 7]")
                    case (Inl e)
                    with rest corners nc True centre show ?thesis by (auto simp: get_item_def simp del: first_empty.simps)
                  next
                    case sides: (Inr c2)
                    show ?thesis
                    proof (cases c2)
                      case (Some i)
                      with rest corners nc True centre sides first_empty_Some [of b "[1, 3, 5, 7]" i]
                      show ?thesis by (auto simp: get_item_def simp del: first_empty.simps)
                    next
                      case ns: None
                      from rest corners nc True centre sides ns False
                      have "r = Some (get_valid_actions b ! (g 0 mod length (get_valid_actions b))) \<and> b' = b"
                        by (auto simp: get_item_def random_choice_nonempty simp del: first_empty.simps)
                      moreover have "get_valid_actions b ! (g 0 mod length (get_valid_actions b))
                                       \<in> set (get_valid_actions b)"
                        using False by simp
                      ultimately show ?thesis by (auto simp: gva_set)
                    qed
                  qed
                qed
              qed
            qed
          qed
        qed
      qed
    qed
  qed
qed

lemma below_nine: "i < 9 \<Longrightarrow> i \<in> set [0, 2, 6, 8] \<or> i = 4 \<or> i \<in> set [1, 3, 5, 7]" for i :: nat
  by (simp add: numeral_eq_Suc less_Suc_eq) blast

lemma no_fallback:
  assumes "length b = 9" and "''_'' \<in> set b"
    and "find (\<lambda>i. b ! i = ''_'') [0, 2, 6, 8] = None" and "b ! 4 \<noteq> ''_''"
  shows "find (\<lambda>i. b ! i = ''_'') [1, 3, 5, 7] \<noteq> None"
proof -
  from assms(1,2) obtain i where i: "i < 9" "b ! i = ''_''"
    by (auto simp: in_set_conv_nth)
  from assms(3) have "\<forall>j \<in> set [0, 2, 6, 8]. b ! j \<noteq> ''_''"
    unfolding find_None_iff by blast
  with i assms(4) below_nine [OF i(1)] have "i \<in> set [1, 3, 5, 7]" by blast
  with i(2) show ?thesis unfolding find_None_iff by blast
qed

lemma full_no_positional:
  assumes "length b = 9" and "''_'' \<notin> set b"
  shows "find (\<lambda>i. b ! i = ''_'') [0, 2, 6, 8] = None \<and> b ! 4 \<noteq> ''_'' \<and>
         find (\<lambda>i. b ! i = ''_'') [1, 3, 5, 7] = None"
proof -
  have "b ! i \<noteq> ''_''" if "i < 9" for i
    using assms that by (metis nth_mem)
  then have "b ! 0 \<noteq> ''_''" "b ! 1 \<noteq> ''_''" "b ! 2 \<noteq> ''_''" "b ! 3 \<noteq> ''_''" "b ! 4 \<noteq> ''_''"
    "b ! 5 \<noteq> ''_''" "b ! 6 \<noteq> ''_''" "b ! 7 \<noteq> ''_''" "b ! 8 \<noteq> ''_''"
    by simp_all
  then show ?thesis by simp
qed

lemma computer_move_nine:
  assumes len: "length b = 9"
  shows "computer_move b s p g = Inr (computer_move_spec b s p, b, g)"
proof (cases "get_valid_actions b = []")
  case True
  then have full: "''_'' \<notin> set b" by (simp add: gva_empty_iff)
  from True have "computer_move_spec b s p = None"
    using full_no_positional [OF len full]
    by (simp add: computer_move_spec_def gva_filter [symmetric])
  with True show ?thesis by (simp add: computer_move_def empty_cells_gva)
next
  case False
  then have some: "''_'' \<in> set b" by (simp add: gva_empty_iff)
  have cells: "\<forall>i \<in> set (get_valid_actions b). i < length b \<and> b ! i = ''_''"
    by (simp add: gva_set)
  have t1: "try_cells b s (get_valid_actions b)
              = Inr (find (\<lambda>i. is_win (b[i := s]) s) (get_valid_actions b), b)"
    using len cells by (intro try_cells_find) auto
  have t2: "try_cells b p (get_valid_actions b)
              = Inr (find (\<lambda>i. is_win (b[i := p]) p) (get_valid_actions b), b)"
    using len cells by (intro try_cells_find) auto
  have c: "first_empty b [0, 2, 6, 8] = Inr (find (\<lambda>i. b ! i = ''_'') [0, 2, 6, 8])"
    by (rule first_empty_find) (simp add: len)
  have m: "get_item b 4 = Inr (b ! 4)"
    by (simp add: get_item_def len)
  have d: "first_empty b [1, 3, 5, 7] = Inr (find (\<lambda>i. b ! i = ''_'') [1, 3, 5, 7])"
    by (rule first_empty_find) (simp add: len)
  have nf: "find (\<lambda>i. b ! i = ''_'') [0, 2, 6, 8] = None \<Longrightarrow> b ! 4 \<noteq> ''_'' \<Longrightarrow>
            find (\<lambda>i. b ! i = ''_'') [1, 3, 5, 7] \<noteq> None"
    by (rule no_fallback [OF len some])
  show ?thesis
  proof (cases "find (\<lambda>i. is_win (b[i := s]) s) (get_valid_actions b)")
    case (Some i)
    with False show ?thesis
      by (simp add: computer_move_def computer_move_spec_def empty_cells_gva
                    gva_filter [symmetric] t1)
  next
    case w: None
    show ?thesis
    proof (cases "find (\<lambda>i. is_win (b[i := p]) p) (get_valid_actions b)")
      case (Some i)
      with False w show ?thesis
        by (simp add: computer_move_def computer_move_spec_def empty_cells_gva
                      gva_filter [symmetric] t1 t2)
    next
      case bl: None
      show ?thesis
      proof (cases "find (\<lambda>i. b ! i = ''_'') [0, 2, 6, 8]")
        case (Some i)
        with False w bl show ?thesis
          by (simp add: computer_move_def computer_move_spec_def empty_cells_gva
                        gva_filter [symmetric] t1 t2 c del: first_empty.simps find.simps)
      next
        case co: None
        show ?thesis
        proof (cases "b ! 4 = ''_''")
          case True
          with False w bl co show ?thesis
            by (simp add: computer_move_def computer_move_spec_def empty_cells_gva
                          gva_filter [symmetric] t1 t2 c m del: first_empty.simps find.simps)
        next
          case ce: False
          from nf [OF co ce] obtain i where si: "find (\<lambda>i. b ! i = ''_'') [1, 3, 5, 7] = Some i"
            by auto
          with False w bl co ce show ?thesis
            by (simp add: computer_move_def computer_move_spec_def empty_cells_gva
                          gva_filter [symmetric] t1 t2 c m d del: first_empty.simps find.simps One_nat_def)
        qed
      qed
    qed
  qed
qed

lemma computer_move_spec_None:
  assumes len: "length b = 9"
  shows "computer_move_spec b s p = None \<longleftrightarrow> ''_'' \<notin> set b"
proof -
  from computer_move_frame [OF computer_move_nine [OF len, of s p g]]
  have "case computer_move_spec b s p of None \<Rightarrow> ''_'' \<notin> set b
        | Some c \<Rightarrow> c < length b \<and> b ! c = ''_''" by (auto split: option.splits)
  then show ?thesis
    by (auto split: option.splits dest: nth_mem)
qed

text \<open>
  Claim C5: on a nine-cell board \<open>computer_move\<close> returns the move of the strict priority
  order (win, block, first empty corner of 0, 2, 6, 8, centre, first empty side of
  1, 3, 5, 7), and it returns no action exactly when the board has no empty cell.
\<close>

theorem computer_move_priority:
  "length b = 9 \<Longrightarrow>
     (\<exists>b' g'. computer_move b s p g = Inr (computer_move_spec b s p, b', g')) \<and>
     ((\<exists>b' g'. computer_move b s p g = Inr (None, b', g')) \<longleftrightarrow> ''_'' \<notin> set b)"
  using computer_move_nine [of b s p g] computer_move_spec_None [of b s p]
  by auto

theorem computer_move_priority_witness:
  "length [''X'', ''X'', ''_'', ''O'', ''O'', ''_'', ''_'', ''_'', ''_''] = 9 \<and>
   (\<exists>b' g'. computer_move [''X'', ''X'', ''_'', ''O'', ''O'', ''_'', ''_'', ''_'', ''_'']
              ''O'' ''X'' (\<lambda>_. 0) = Inr (Some 5, b', g')) \<and>
   (\<exists>b' g'. computer_move [''X'', ''X'', ''_'', ''_'', ''O'', ''_'', ''_'', ''_'', ''_'']
              ''O'' ''X'' (\<lambda>_. 0) = Inr (Some 2, b', g')) \<and>
   (\<exists>b' g'. computer_move [''_'', ''_'', ''_'', ''_'', ''X'', ''_'', ''_'', ''_'', ''_'']
              ''O'' ''X'' (\<lambda>_. 0) = Inr (Some 0, b', g')) \<and>
   (\<exists>b' g'. computer_move [''X'', ''O'', ''X'', ''X'', ''_'', ''O'', ''O'', ''X'', ''X'']
              ''O'' ''X'' (\<lambda>_. 0) = Inr (Some 4, b', g')) \<and>
   (\<exists>b' g'. computer_move [''X'', ''_'', ''O'', ''O'', ''X'', ''X'', ''X'', ''_'', ''O'']
              ''O'' ''X'' (\<lambda>_. 0) = Inr (Some 1, b', g')) \<and>
   (\<exists>b' g'. computer_move [''X'', ''O'', ''X'', ''X'', ''O'', ''O'', ''O'', ''X'', ''X'']
              ''O'' ''X'' (\<lambda>_. 0) = Inr (None, b', g'))"
proof -
  have 1: "computer_move_spec [''X'', ''X'', ''_'', ''O'', ''O'', ''_'', ''_'', ''_'', ''_'']
             ''O'' ''X'' = Some 5"
    by (simp add: computer_move_spec_def is_win_def lines_def upt_rec)
  have 2: "computer_move_spec [''X'', ''X'', ''_'', ''_'', ''O'', ''_'', ''_'', ''_'', ''_'']
             ''O'' ''X'' = Some 2"
    by (simp add: computer_move_spec_def is_win_def lines_def upt_rec)
  have 3: "computer_move_spec [''_'', ''_'', ''_'', ''_'', ''X'', ''_'', ''_'', ''_'', ''_'']
             ''O'' ''X'' = Some 0"
    by (simp add: computer_move_spec_def is_win_def lines_def upt_rec)
  have 4: "computer_move_spec [''X'', ''O'', ''X'', ''X'', ''_'', ''O'', ''O'', ''X'', ''X'']
             ''O'' ''X'' = Some 4"
    by (simp add: computer_move_spec_def is_win_def lines_def upt_rec)
  have 5: "computer_move_spec [''X'', ''_'', ''O'', ''O'', ''X'', ''X'', ''X'', ''_'', ''O'']
             ''O'' ''X'' = Some 1"
    by (simp add: computer_move_spec_def is_win_def lines_def upt_rec)
  show ?thesis
    using
      computer_move_priority [of "[''X'', ''X'', ''_'', ''O'', ''O'', ''_'', ''_'', ''_'', ''_'']"
        "''O''" "''X''" "\<lambda>_. 0"]
      computer_move_priority [of "[''X'', ''X'', ''_'', ''_'', ''O'', ''_'', ''_'', ''_'', ''_'']"
        "''O''" "''X''" "\<lambda>_. 0"]
      computer_move_priority [of "[''_'', ''_'', ''_'', ''_'', ''X'', ''_'', ''_'', ''_'', ''_'']"
        "''O''" "''X''" "\<lambda>_. 0"]
      computer_move_priority [of "[''X'', ''O'', ''X'', ''X'', ''_'', ''O'', ''O'', ''X'', ''X'']"
        "''O''" "''X''" "\<lambda>_. 0"]
      computer_move_priority [of "[''X'', ''_'', ''O'', ''O'', ''X'', ''X'', ''X'', ''_'', ''O'']"
        "''O''" "''X''" "\<lambda>_. 0"]
      computer_move_priority [of "[''X'', ''O'', ''X'', ''X'', ''O'', ''O'', ''O'', ''X'', ''X'']"
        "''O''" "''X''" "\<lambda>_. 0"]
    unfolding 1 2 3 4 5 by simp
qed

text \<open>
  Claim C6: \<open>computer_move\<close> leaves the board as it was: whenever it returns, on any
  return path, the board it hands back is the board it was given, and on a nine-cell board
  it always returns.
\<close>

theorem computer_move_restores_board:
  "(\<forall>r b' g'. computer_move b s p g = Inr (r, b', g') \<longrightarrow> b' = b) \<and>
   (length b = 9 \<longrightarrow> (\<exists>r g'. computer_move b s p g = Inr (r, b, g')))"
proof -
  have "b' = b" if "computer_move b s p g = Inr (r, b', g')" for r b' g'
    using computer_move_frame [OF that] by simp
  moreover have "\<exists>r g'. computer_move b s p g = Inr (r, b, g')" if "length b = 9"
    using computer_move_nine [OF that, of s p g] by blast
  ultimately show ?thesis by blast
qed

theorem computer_move_restores_board_witness:
  "length [''X'', ''X'', ''_'', ''_'', ''O'', ''_'', ''_'', ''_'', ''_''] = 9 \<and>
   computer_move [''X'', ''X'', ''_'', ''_'', ''O'', ''_'', ''_'', ''_'', ''_''] ''O'' ''X'' (\<lambda>_. 0)
     = Inr (Some 2, [''X'', ''X'', ''_'', ''_'', ''O'', ''_'', ''_'', ''_'', ''_''], \<lambda>_. 0)"
  using computer_move_restores_board
          [of "[''X'', ''X'', ''_'', ''_'', ''O'', ''_'', ''_'', ''_'', ''_'']" "''O''" "''X''" "\<lambda>_. 0"]
  by (simp add: computer_move_def check_win_def lines_def set_item_def get_item_def
                enumerate_eq_zip upt_rec)

text \<open>
  Claim C7: on a nine-cell board \<open>computer_move\<close> is deterministic: its result does not
  depend on the random generator, which it hands back untouched. The random fallback is
  unreachable, because an empty cell is a corner, the centre or a side, so one of the
  three positional steps finds it.
\<close>

theorem computer_move_deterministic:
  "length b = 9 \<Longrightarrow>
     (\<exists>r. \<forall>g. computer_move b s p g = Inr (r, b, g)) \<and>
     (''_'' \<in> set b \<longrightarrow>
        \<not> (first_empty b [0, 2, 6, 8] = Inr None \<and> get_item b 4 \<noteq> Inr ''_'' \<and>
           first_empty b [1, 3, 5, 7] = Inr None))"
proof -
  assume len: "length b = 9"
  have det: "\<exists>r. \<forall>g. computer_move b s p g = Inr (r, b, g)"
    using computer_move_nine [OF len, of s p] by blast
  have c: "first_empty b [0, 2, 6, 8] = Inr (find (\<lambda>i. b ! i = ''_'') [0, 2, 6, 8])"
    by (rule first_empty_find) (simp add: len)
  have d: "first_empty b [1, 3, 5, 7] = Inr (find (\<lambda>i. b ! i = ''_'') [1, 3, 5, 7])"
    by (rule first_empty_find) (simp add: len)
  have m: "get_item b 4 = Inr (b ! 4)"
    by (simp add: get_item_def len)
  have "\<not> (first_empty b [0, 2, 6, 8] = Inr None \<and> get_item b 4 \<noteq> Inr ''_'' \<and>
           first_empty b [1, 3, 5, 7] = Inr None)" if e: "''_'' \<in> set b"
  proof -
    have "find (\<lambda>i. b ! i = ''_'') [0, 2, 6, 8] = None \<longrightarrow> b ! 4 \<noteq> ''_'' \<longrightarrow>
          find (\<lambda>i. b ! i = ''_'') [1, 3, 5, 7] \<noteq> None"
      using no_fallback [OF len e] by blast
    then show ?thesis
      unfolding c d m by (simp del: find.simps One_nat_def) blast
  qed
  with det show ?thesis by blast
qed

theorem computer_move_deterministic_witness:
  "length [''X'', ''_'', ''O'', ''O'', ''X'', ''X'', ''X'', ''_'', ''O''] = 9 \<and>
   ''_'' \<in> set [''X'', ''_'', ''O'', ''O'', ''X'', ''X'', ''X'', ''_'', ''O''] \<and>
   first_empty [''X'', ''_'', ''O'', ''O'', ''X'', ''X'', ''X'', ''_'', ''O''] [1, 3, 5, 7]
     = Inr (Some 1) \<and>
   (\<exists>r. \<forall>g. computer_move [''X'', ''_'', ''O'', ''O'', ''X'', ''X'', ''X'', ''_'', ''O'']
              ''O'' ''X'' g
            = Inr (r, [''X'', ''_'', ''O'', ''O'', ''X'', ''X'', ''X'', ''_'', ''O''], g))"
  using computer_move_deterministic
          [of "[''X'', ''_'', ''O'', ''O'', ''X'', ''X'', ''X'', ''_'', ''O'']" "''O''" "''X''"]
  by (simp add: get_item_def)

section \<open>Termination of the episode loop\<close>

lemma choose_action_total:
  assumes "''_'' \<in> set b"
  shows "\<exists>a g'. choose_action q eps b ex g = Inr (Some a, g') \<and> a < length b \<and> b ! a = ''_''"
proof -
  from assms have ne: "get_valid_actions b \<noteq> []" by (simp add: gva_empty_iff)
  show ?thesis
  proof (cases "ex \<and> fst (random_random g) < eps")
    case True
    let ?a = "get_valid_actions b ! (snd (random_random g) 0 mod length (get_valid_actions b))"
    have "?a \<in> set (get_valid_actions b)" using ne by simp
    then have "?a < length b \<and> b ! ?a = ''_''" by (simp add: gva_set)
    moreover have "choose_action q eps b ex g = Inr (Some ?a, rng_next (snd (random_random g)))"
      using True ne by (simp add: choose_action_explore random_choice_nonempty)
    ultimately show ?thesis by blast
  next
    case False
    let ?g = "if ex then snd (random_random g) else g"
    let ?a = "tied_best_actions q b ! (?g 0 mod length (tied_best_actions q b))"
    have ne': "tied_best_actions q b \<noteq> []" by (rule tied_best_nonempty [OF ne])
    then have "?a \<in> set (tied_best_actions q b)" by simp
    then have "?a \<in> set (get_valid_actions b)" using tied_best_subset by blast
    then have "?a < length b \<and> b ! ?a = ''_''" by (simp add: gva_set)
    moreover have "choose_action q eps b ex g = Inr (Some ?a, rng_next ?g)"
      using choose_action_exploit [OF ne False, of q] ne'
      by (simp add: random_choice_nonempty)
    ultimately show ?thesis by blast
  qed
qed

lemma choose_action_valid:
  assumes "choose_action q eps b ex g = Inr (Some a, g')"
  shows "a < length b \<and> b ! a = ''_''"
proof (cases "''_'' \<in> set b")
  case True
  from choose_action_total [OF True, of q eps ex g] assms show ?thesis by auto
next
  case False
  then have "get_valid_actions b = []" by (simp add: gva_empty_iff)
  with assms show ?thesis by (simp add: choose_action_none)
qed

lemma gva_update_less:
  assumes "a < length b" and "b ! a = ''_''" and "v \<noteq> ''_''"
  shows "length (get_valid_actions (b[a := v])) < length (get_valid_actions b)"
proof -
  have len: "length (get_valid_actions x) = card (set (get_valid_actions x))" for x
    by (simp add: distinct_card gva_distinct)
  have "set (get_valid_actions (b[a := v])) \<subset> set (get_valid_actions b)"
    using assms by (auto simp: gva_set nth_list_update split: if_splits)
  then show ?thesis
    unfolding len by (intro psubset_card_mono) auto
qed

lemma agent_turn_Continue:
  assumes "agent_turn tr h = Inr (Continue, tr1, h1)"
  shows "\<exists>a. a < length (self_board tr) \<and> self_board tr ! a = ''_'' \<and>
             self_board tr1 = (self_board tr)[a := ''X''] \<and>
             h1 = h @ [(get_state (self_board tr), a)]"
proof (cases "choose_action (self_q_table tr) (epsilon tr) (self_board tr) True (random_state tr)")
  case (Inl e)
  with assms show ?thesis by (simp add: agent_turn_def)
next
  case (Inr x)
  obtain r g where x: "x = (r, g)" by (cases x)
  show ?thesis
  proof (cases r)
    case None
    with assms Inr x show ?thesis by (simp add: agent_turn_def)
  next
    case (Some a)
    from choose_action_valid [OF Inr [unfolded x Some]]
    have a: "a < length (self_board tr)" "self_board tr ! a = ''_''" by auto
    from assms Inr x Some a
    have "self_board tr1 = (self_board tr)[a := ''X''] \<and> h1 = h @ [(get_state (self_board tr), a)]"
      by (auto simp: agent_turn_def set_item_def Let_def split: sum.splits if_splits)
    with a show ?thesis by blast
  qed
qed

lemma computer_turn_Continue:
  assumes "computer_turn tr h = Inr (Continue, tr1, h1)"
  shows "\<exists>c. c < length (self_board tr) \<and> self_board tr ! c = ''_'' \<and>
             self_board tr1 = (self_board tr)[c := ''O''] \<and> h1 = h"
proof (cases "computer_move (self_board tr) ''O'' ''X'' (random_state tr)")
  case (Inl e)
  with assms show ?thesis by (simp add: computer_turn_def)
next
  case (Inr x)
  obtain r b g where x: "x = (r, b, g)" by (cases x)
  from computer_move_frame [OF Inr [unfolded x]]
  have b: "b = self_board tr"
    and r: "case r of None \<Rightarrow> True | Some c \<Rightarrow> c < length (self_board tr) \<and> self_board tr ! c = ''_''"
    by (auto split: option.splits)
  show ?thesis
  proof (cases r)
    case None
    with assms Inr x show ?thesis by (simp add: computer_turn_def)
  next
    case (Some c)
    with r have c: "c < length (self_board tr)" "self_board tr ! c = ''_''" by auto
    from assms Inr x Some b c
    have "self_board tr1 = (self_board tr)[c := ''O''] \<and> h1 = h"
      by (auto simp: computer_turn_def set_item_def Let_def ai_loses_def
               split: sum.splits if_splits prod.splits)
    with c show ?thesis by blast
  qed
qed

lemma loop_body_decreases:
  assumes "loop_body tr h = Inr (Continue, tr1, h1)"
  shows "length (get_valid_actions (self_board tr1)) < length (get_valid_actions (self_board tr))"
proof -
  from assms obtain tr0 h0 where a: "agent_turn tr h = Inr (Continue, tr0, h0)"
    and c: "computer_turn tr0 h0 = Inr (Continue, tr1, h1)"
    by (auto simp: loop_body_def split: sum.splits flow.splits)
  from agent_turn_Continue [OF a] obtain i where
    i: "i < length (self_board tr)" "self_board tr ! i = ''_''"
       "self_board tr0 = (self_board tr)[i := ''X'']" by blast
  from computer_turn_Continue [OF c] obtain j where
    j: "j < length (self_board tr0)" "self_board tr0 ! j = ''_''"
       "self_board tr1 = (self_board tr0)[j := ''O'']" by blast
  have "length (get_valid_actions (self_board tr1)) < length (get_valid_actions (self_board tr0))"
    unfolding j(3) by (rule gva_update_less [OF j(1,2)]) simp
  also have "\<dots> < length (get_valid_actions (self_board tr))"
    unfolding i(3) by (rule gva_update_less [OF i(1,2)]) simp
  finally show ?thesis .
qed

termination play_loop
  by (relation "measure (\<lambda>(tr, h). length (get_valid_actions (self_board tr)))")
     (auto dest: loop_body_decreases)

declare play_loop.simps [simp del]

section \<open>Properties of an episode\<close>

lemma is_win_update_other:
  assumes "a < length b" and "s \<noteq> t" and "is_win (b[a := s]) t"
  shows "is_win b t"
proof -
  from assms(3) obtain line where l: "line \<in> set lines" "\<forall>i \<in> set line. (b[a := s]) ! i = t"
    unfolding is_win_def by blast
  have "b ! i = t" if "i \<in> set line" for i
  proof -
    from l(2) that have u: "(b[a := s]) ! i = t" by blast
    with assms(1,2) have "i \<noteq> a" by auto
    with u show ?thesis by simp
  qed
  with l(1) show ?thesis unfolding is_win_def by blast
qed

lemma agent_turn_nine:
  assumes len: "length (self_board tr) = 9" and e: "''_'' \<in> set (self_board tr)"
  shows "\<exists>a g. a < 9 \<and> self_board tr ! a = ''_'' \<and>
           agent_turn tr h =
             Inr (let b1 = (self_board tr)[a := ''X''];
                      h1 = h @ [(get_state (self_board tr), a)];
                      tr1 = tr\<lparr>self_board := b1, random_state := g\<rparr>
                  in if is_win b1 ''X'' then (Break, ai_wins tr1 h1, h1)
                     else if is_draw b1 then (Break, draw_game tr1 h1, h1)
                     else (Continue, tr1, h1))"
proof -
  from choose_action_total [OF e, of "self_q_table tr" "epsilon tr" True "random_state tr"]
  obtain a g where c: "choose_action (self_q_table tr) (epsilon tr) (self_board tr) True
                         (random_state tr) = Inr (Some a, g)"
    and a: "a < length (self_board tr)" "self_board tr ! a = ''_''" by blast
  have w: "check_win ((self_board tr)[a := ''X'']) ''X'' = Inr (is_win ((self_board tr)[a := ''X'']) ''X'')"
    by (rule check_win_is_win) (simp add: len)
  have "agent_turn tr h =
             Inr (let b1 = (self_board tr)[a := ''X''];
                      h1 = h @ [(get_state (self_board tr), a)];
                      tr1 = tr\<lparr>self_board := b1, random_state := g\<rparr>
                  in if is_win b1 ''X'' then (Break, ai_wins tr1 h1, h1)
                     else if is_draw b1 then (Break, draw_game tr1 h1, h1)
                     else (Continue, tr1, h1))"
    using a by (simp add: agent_turn_def c set_item_def w Let_def)
  with a len show ?thesis by auto
qed

lemma computer_turn_nine:
  assumes len: "length (self_board tr) = 9" and e: "''_'' \<in> set (self_board tr)"
  shows "\<exists>c. c < 9 \<and> self_board tr ! c = ''_'' \<and>
           computer_turn tr h =
             (let b1 = (self_board tr)[c := ''O''];
                  tr1 = tr\<lparr>self_board := b1, random_state := random_state tr\<rparr>
              in if is_win b1 ''O'' then
                   (case ai_loses tr1 h of Inl e \<Rightarrow> Inl e | Inr tr2 \<Rightarrow> Inr (Break, tr2, h))
                 else if is_draw b1 then Inr (Break, draw_game tr1 h, h)
                 else Inr (Continue, tr1, h))"
proof -
  have m: "computer_move (self_board tr) ''O'' ''X'' (random_state tr)
             = Inr (computer_move_spec (self_board tr) ''O'' ''X'', self_board tr, random_state tr)"
    by (rule computer_move_nine [OF len])
  from computer_move_spec_None [OF len, of "''O''" "''X''"] e
  obtain c where s: "computer_move_spec (self_board tr) ''O'' ''X'' = Some c" by auto
  from computer_move_frame [OF m [unfolded s]]
  have c: "c < length (self_board tr)" "self_board tr ! c = ''_''" by auto
  have w: "check_win ((self_board tr)[c := ''O'']) ''O'' = Inr (is_win ((self_board tr)[c := ''O'']) ''O'')"
    by (rule check_win_is_win) (simp add: len)
  have "computer_turn tr h =
             (let b1 = (self_board tr)[c := ''O''];
                  tr1 = tr\<lparr>self_board := b1, random_state := random_state tr\<rparr>
              in if is_win b1 ''O'' then
                   (case ai_loses tr1 h of Inl e \<Rightarrow> Inl e | Inr tr2 \<Rightarrow> Inr (Break, tr2, h))
                 else if is_draw b1 then Inr (Break, draw_game tr1 h, h)
                 else Inr (Continue, tr1, h))"
    using c by (simp add: computer_turn_def m s set_item_def w Let_def)
  with c len show ?thesis by auto
qed

lemma ai_loses_Inr:
  "h \<noteq> [] \<Longrightarrow>
   ai_loses tr h =
     Inr (tr\<lparr>self_q_table :=
               update_q (self_q_table tr) (fst (last h)) (snd (last h)) (- 1)
                 (get_state (self_board tr)) [],
             self_stats := (self_stats tr)\<lparr>games := games (self_stats tr) + 1\<rparr>\<rparr>)"
  by (simp add: ai_loses_def split: prod.splits)

abbreviation outcome :: "trainer \<Rightarrow> trainer \<Rightarrow> history \<Rightarrow> bool" where
  "outcome tr fin hf \<equiv>
     (is_win (self_board fin) ''X'' \<and> \<not> is_win (self_board fin) ''O'' \<and>
      self_q_table fin =
        update_each (self_q_table tr) (rev hf) 1 (get_state (self_board fin))) \<or>
     (is_win (self_board fin) ''O'' \<and> \<not> is_win (self_board fin) ''X'' \<and>
      self_q_table fin =
        update_q (self_q_table tr) (fst (last hf)) (snd (last hf)) (- 1)
          (get_state (self_board fin)) []) \<or>
     (\<not> is_win (self_board fin) ''X'' \<and> \<not> is_win (self_board fin) ''O'' \<and>
      is_draw (self_board fin) \<and>
      self_q_table fin =
        update_each (self_q_table tr) hf (2 / 10) (get_state (self_board fin)))"

lemma play_loop_outcome:
  assumes "length (self_board tr) = 9" and "''_'' \<in> set (self_board tr)"
    and "\<not> is_win (self_board tr) ''X''" and "\<not> is_win (self_board tr) ''O''"
  shows "\<exists>fin hf. play_loop tr h = Inr (fin, hf) \<and> epsilon fin = epsilon tr \<and>
           (\<exists>ys. hf = h @ ys \<and> ys \<noteq> []) \<and> length (self_board fin) = 9 \<and> outcome tr fin hf"
  using assms
proof (induction tr h rule: play_loop.induct)
  case (1 tr h)
  note len = "1.prems"(1) and e = "1.prems"(2) and nx = "1.prems"(3) and no = "1.prems"(4)
  from agent_turn_nine [OF len e, of h] obtain a g where
    a: "a < 9" "self_board tr ! a = ''_''"
    and at: "agent_turn tr h =
             Inr (let b1 = (self_board tr)[a := ''X''];
                      h1 = h @ [(get_state (self_board tr), a)];
                      tr1 = tr\<lparr>self_board := b1, random_state := g\<rparr>
                  in if is_win b1 ''X'' then (Break, ai_wins tr1 h1, h1)
                     else if is_draw b1 then (Break, draw_game tr1 h1, h1)
                     else (Continue, tr1, h1))" by blast
  define b1 where "b1 = (self_board tr)[a := ''X'']"
  define h1 where "h1 = h @ [(get_state (self_board tr), a)]"
  define tr1 where "tr1 = tr\<lparr>self_board := b1, random_state := g\<rparr>"
  have at': "agent_turn tr h =
               Inr (if is_win b1 ''X'' then (Break, ai_wins tr1 h1, h1)
                    else if is_draw b1 then (Break, draw_game tr1 h1, h1)
                    else (Continue, tr1, h1))"
    using at by (simp add: b1_def h1_def tr1_def Let_def)
  have len1: "length b1 = 9" by (simp add: b1_def len)
  have no1: "\<not> is_win b1 ''O''"
    using is_win_update_other [of a "self_board tr" "''X''" "''O''"] a len no
    by (auto simp: b1_def)
  have tr1_simps: "self_board tr1 = b1" "self_q_table tr1 = self_q_table tr"
    "epsilon tr1 = epsilon tr"
    by (simp_all add: tr1_def)
  show ?case
  proof (cases "is_win b1 ''X''")
    case True
    then have "play_loop tr h = Inr (ai_wins tr1 h1, h1)"
      by (simp add: play_loop.simps [of tr h] loop_body_def at')
    moreover have "outcome tr (ai_wins tr1 h1) h1"
      using True no1 by (simp add: ai_wins_def tr1_simps)
    ultimately show ?thesis
      by (simp add: ai_wins_def tr1_simps len1 h1_def)
  next
    case nx1: False
    show ?thesis
    proof (cases "is_draw b1")
      case True
      then have "play_loop tr h = Inr (draw_game tr1 h1, h1)"
        using nx1 by (simp add: play_loop.simps [of tr h] loop_body_def at')
      moreover have "outcome tr (draw_game tr1 h1) h1"
        using True nx1 no1 by (simp add: draw_game_def tr1_simps)
      ultimately show ?thesis
        by (simp add: draw_game_def tr1_simps len1 h1_def)
    next
      case nd1: False
      then have e1: "''_'' \<in> set (self_board tr1)" by (simp add: is_draw_def tr1_simps)
      have lb1: "loop_body tr h = computer_turn tr1 h1"
        using nx1 nd1 by (simp add: play_loop.simps [of tr h] loop_body_def at')
      from computer_turn_nine [of tr1 h1] e1 len1 obtain c where
        c: "c < 9" "b1 ! c = ''_''"
        and ct: "computer_turn tr1 h1 =
             (let b2 = b1[c := ''O''];
                  tr2 = tr1\<lparr>self_board := b2, random_state := random_state tr1\<rparr>
              in if is_win b2 ''O'' then
                   (case ai_loses tr2 h1 of Inl e \<Rightarrow> Inl e | Inr tr3 \<Rightarrow> Inr (Break, tr3, h1))
                 else if is_draw b2 then Inr (Break, draw_game tr2 h1, h1)
                 else Inr (Continue, tr2, h1))"
        by (auto simp: tr1_simps)
      define b2 where "b2 = b1[c := ''O'']"
      define tr2 where "tr2 = tr1\<lparr>self_board := b2, random_state := random_state tr1\<rparr>"
      have ct': "computer_turn tr1 h1 =
              (if is_win b2 ''O'' then
                   (case ai_loses tr2 h1 of Inl e \<Rightarrow> Inl e | Inr tr3 \<Rightarrow> Inr (Break, tr3, h1))
                 else if is_draw b2 then Inr (Break, draw_game tr2 h1, h1)
                 else Inr (Continue, tr2, h1))"
        using ct by (simp add: b2_def tr2_def Let_def)
      have len2: "length b2 = 9" by (simp add: b2_def len1)
      have nx2: "\<not> is_win b2 ''X''"
        using is_win_update_other [of c b1 "''O''" "''X''"] c len1 nx1
        by (auto simp: b2_def)
      have tr2_simps: "self_board tr2 = b2" "self_q_table tr2 = self_q_table tr"
        "epsilon tr2 = epsilon tr"
        by (simp_all add: tr2_def tr1_simps)
      have h1ne: "h1 \<noteq> []" by (simp add: h1_def)
      show ?thesis
      proof (cases "is_win b2 ''O''")
        case True
        let ?fin = "tr2\<lparr>self_q_table :=
               update_q (self_q_table tr2) (fst (last h1)) (snd (last h1)) (- 1)
                 (get_state (self_board tr2)) [],
             self_stats := (self_stats tr2)\<lparr>games := games (self_stats tr2) + 1\<rparr>\<rparr>"
        have "play_loop tr h = Inr (?fin, h1)"
          using True by (simp add: play_loop.simps [of tr h] lb1 ct' ai_loses_Inr [OF h1ne])
        moreover have "outcome tr ?fin h1"
          using True nx2 by (simp add: tr2_simps)
        ultimately show ?thesis
          by (simp add: tr2_simps len2 h1_def)
      next
        case no2: False
        show ?thesis
        proof (cases "is_draw b2")
          case True
          then have "play_loop tr h = Inr (draw_game tr2 h1, h1)"
            using no2 by (simp add: play_loop.simps [of tr h] lb1 ct')
          moreover have "outcome tr (draw_game tr2 h1) h1"
            using True nx2 no2 by (simp add: draw_game_def tr2_simps)
          ultimately show ?thesis
            by (simp add: draw_game_def tr2_simps len2 h1_def)
        next
          case nd2: False
          then have e2: "''_'' \<in> set (self_board tr2)" by (simp add: is_draw_def tr2_simps)
          have lb: "loop_body tr h = Inr (Continue, tr2, h1)"
            using no2 nd2 by (simp add: lb1 ct')
          from "1.IH" [OF lb refl refl refl] len2 e2 nx2 no2
          obtain fin hf where f: "play_loop tr2 h1 = Inr (fin, hf)" "epsilon fin = epsilon tr2"
            "\<exists>ys. hf = h1 @ ys \<and> ys \<noteq> []" "length (self_board fin) = 9" "outcome tr2 fin hf"
            by (auto simp: tr2_simps)
          have "play_loop tr h = Inr (fin, hf)"
            using lb f(1) by (simp add: play_loop.simps [of tr h])
          moreover have "outcome tr fin hf"
            using f(5) by (simp add: tr2_simps)
          moreover have "\<exists>ys. hf = h @ ys \<and> ys \<noteq> []"
            using f(3) by (auto simp: h1_def)
          ultimately show ?thesis
            using f(2,4) by (simp add: tr2_simps)
        qed
      qed
    qed
  qed
qed

lemma replicate_nine: "replicate 9 x = [x, x, x, x, x, x, x, x, x]"
  by (simp add: numeral_eq_Suc)

lemma update_each_foldl:
  "update_each q h r ns = foldl (\<lambda>q (s, a). update_q q s a r ns []) q h"
  by (induction q h r ns rule: update_each.induct) simp_all

lemma reset_board_inv:
  "length (self_board (reset_board tr)) = 9 \<and> ''_'' \<in> set (self_board (reset_board tr)) \<and>
   \<not> is_win (self_board (reset_board tr)) ''X'' \<and> \<not> is_win (self_board (reset_board tr)) ''O''"
  by (simp add: reset_board_def replicate_nine is_win_def lines_def)

lemma episode_outcome:
  "\<exists>fin hf. play_loop (reset_board tr) [] = Inr (fin, hf) \<and> epsilon fin = epsilon tr \<and>
     hf \<noteq> [] \<and> outcome tr fin hf"
proof -
  from reset_board_inv [of tr]
  have i: "length (self_board (reset_board tr)) = 9" "''_'' \<in> set (self_board (reset_board tr))"
    "\<not> is_win (self_board (reset_board tr)) ''X''" "\<not> is_win (self_board (reset_board tr)) ''O''"
    by blast+
  from play_loop_outcome [OF i, of "[]"] show ?thesis
    by (simp add: reset_board_def) blast
qed

lemmas episode_eval =
  Trainer_init_def reset_board_def replicate_nine loop_body_def agent_turn_def computer_turn_def
  choose_action_def computer_move_def random_random_def random_choice_def randbelow_def
  rng_next_def get_valid_actions_def get_state_def check_win_def lines_def set_item_def
  get_item_def is_draw_def ai_loses_def ai_wins_def draw_game_def py_max_def py_max_default_def
  update_q_def q_get_def qkey_def str_nat.simps digit_char_def ALPHA_def GAMMA_def
  EPSILON_def Let_def enumerate_eq_zip upt_rec play_loop.simps

text \<open>
  Claim C2: every episode started from a reset board returns, and its terminal credit is:
  if the agent has won, the terminal update with reward 1 of every recorded pair, in reverse
  order of recording, with the final board as next state and no next action; if the
  opponent has won, the terminal update with reward -1 of the last recorded pair only; if
  nobody has won, the board is full and every recorded pair gets the terminal update with
  reward 0.2 in forward order. The table is not touched before that.
\<close>

theorem terminal_credit:
  "\<exists>fin h. play_loop (reset_board tr) [] = Inr (fin, h) \<and>
     play_one_game tr = Inr (fin\<lparr>epsilon := max MIN_EPSILON (epsilon fin * EPSILON_DECAY)\<rparr>) \<and>
     (is_win (self_board fin) ''X'' \<longrightarrow>
        self_q_table fin =
          foldl (\<lambda>q (s, a). update_q q s a 1 (get_state (self_board fin)) [])
            (self_q_table tr) (rev h)) \<and>
     (\<not> is_win (self_board fin) ''X'' \<and> is_win (self_board fin) ''O'' \<longrightarrow>
        h \<noteq> [] \<and>
        self_q_table fin =
          update_q (self_q_table tr) (fst (last h)) (snd (last h)) (- 1)
            (get_state (self_board fin)) []) \<and>
     (\<not> is_win (self_board fin) ''X'' \<and> \<not> is_win (self_board fin) ''O'' \<longrightarrow>
        is_draw (self_board fin) \<and>
        self_q_table fin =
          foldl (\<lambda>q (s, a). update_q q s a (2 / 10) (get_state (self_board fin)) [])
            (self_q_table tr) h)"
proof -
  from episode_outcome [of tr] obtain fin h where
    p: "play_loop (reset_board tr) [] = Inr (fin, h)" and ne: "h \<noteq> []" and o: "outcome tr fin h"
    by blast
  have g: "play_one_game tr = Inr (fin\<lparr>epsilon := max MIN_EPSILON (epsilon fin * EPSILON_DECAY)\<rparr>)"
    by (simp add: play_one_game_def p)
  show ?thesis
    using p g ne o unfolding update_each_foldl by blast
qed

theorem terminal_credit_witness:
  "(\<exists>fin. play_loop (reset_board (Trainer_init (\<lambda>n. [0, 0, 0, 6, 0, 3, 0, 2] ! n))) [] =
       Inr (fin, [(''_________'', 0), (''X_O______'', 8), (''X_O_O___X'', 6), (''X_OOO_X_X'', 7)]) \<and>
     is_win (self_board fin) ''X'' \<and>
     self_q_table fin ''_________:0'' = Some (3 / 10) \<and>
     self_q_table fin ''X_OOO_X_X:7'' = Some (3 / 10)) \<and>
   (\<exists>fin. play_loop (reset_board (Trainer_init (\<lambda>n. 0))) [] =
       Inr (fin, [(''_________'', 0), (''X_O______'', 1), (''XXO___O__'', 3)]) \<and>
     \<not> is_win (self_board fin) ''X'' \<and> is_win (self_board fin) ''O'' \<and>
     self_q_table fin ''_________:0'' = None \<and>
     self_q_table fin ''XXO___O__:3'' = Some (- 3 / 10)) \<and>
   (\<exists>fin. play_loop (reset_board (Trainer_init (\<lambda>n. [0, 4, 0, 6, 0, 0, 0, 1, 0, 0] ! n))) [] =
       Inr (fin, [(''_________'', 4), (''O___X____'', 8), (''O_O_X___X'', 1),
                  (''OXO_X__OX'', 5), (''OXOOXX_OX'', 6)]) \<and>
     \<not> is_win (self_board fin) ''X'' \<and> \<not> is_win (self_board fin) ''O'' \<and>
     is_draw (self_board fin) \<and>
     self_q_table fin ''_________:4'' = Some (3 / 50) \<and>
     self_q_table fin ''OXOOXX_OX:6'' = Some (3 / 50))"
proof -
  have x: "\<exists>fin. play_loop (reset_board (Trainer_init (\<lambda>n. [0, 0, 0, 6, 0, 3, 0, 2] ! n))) [] =
       Inr (fin, [(''_________'', 0), (''X_O______'', 8), (''X_O_O___X'', 6), (''X_OOO_X_X'', 7)]) \<and>
     is_win (self_board fin) ''X'' \<and>
     self_q_table fin ''_________:0'' = Some (3 / 10) \<and>
     self_q_table fin ''X_OOO_X_X:7'' = Some (3 / 10)"
    by (simp add: episode_eval is_win_def)
  have o: "\<exists>fin. play_loop (reset_board (Trainer_init (\<lambda>n. 0))) [] =
       Inr (fin, [(''_________'', 0), (''X_O______'', 1), (''XXO___O__'', 3)]) \<and>
     \<not> is_win (self_board fin) ''X'' \<and> is_win (self_board fin) ''O'' \<and>
     self_q_table fin ''_________:0'' = None \<and>
     self_q_table fin ''XXO___O__:3'' = Some (- 3 / 10)"
    by (simp add: episode_eval is_win_def)
  have d: "\<exists>fin. play_loop (reset_board (Trainer_init (\<lambda>n. [0, 4, 0, 6, 0, 0, 0, 1, 0, 0] ! n))) [] =
       Inr (fin, [(''_________'', 4), (''O___X____'', 8), (''O_O_X___X'', 1),
                  (''OXO_X__OX'', 5), (''OXOOXX_OX'', 6)]) \<and>
     \<not> is_win (self_board fin) ''X'' \<and> \<not> is_win (self_board fin) ''O'' \<and>
     is_draw (self_board fin) \<and>
     self_q_table fin ''_________:4'' = Some (3 / 50) \<and>
     self_q_table fin ''OXOOXX_OX:6'' = Some (3 / 50)"
    by (simp add: episode_eval is_win_def)
  from x o d
    terminal_credit [of "Trainer_init (\<lambda>n. [0, 0, 0, 6, 0, 3, 0, 2] ! n)"]
    terminal_credit [of "Trainer_init (\<lambda>n. 0)"]
    terminal_credit [of "Trainer_init (\<lambda>n. [0, 4, 0, 6, 0, 0, 0, 1, 0, 0] ! n)"]
  show ?thesis by blast
qed

lemma play_one_game_total:
  "\<exists>tr'. play_one_game tr = Inr tr' \<and>
         epsilon tr' = max MIN_EPSILON (epsilon tr * EPSILON_DECAY)"
proof -
  from episode_outcome [of tr] obtain fin h where
    p: "play_loop (reset_board tr) [] = Inr (fin, h)" and e: "epsilon fin = epsilon tr"
    by blast
  then show ?thesis by (simp add: play_one_game_def)
qed

lemma train_total:
  "\<exists>a. train n tr = Inr a \<and> (MIN_EPSILON \<le> epsilon tr \<longrightarrow> MIN_EPSILON \<le> epsilon a)"
proof (induction n)
  case 0
  then show ?case by simp
next
  case (Suc n)
  then obtain a where a: "train n tr = Inr a" by blast
  from play_one_game_total [of a] obtain b where
    b: "play_one_game a = Inr b" "epsilon b = max MIN_EPSILON (epsilon a * EPSILON_DECAY)"
    by blast
  then show ?case using a by simp
qed

text \<open>
  Claim C8: in every sequence of episodes, each episode leaves the exploration rate alone
  while it runs and then sets it once to \<open>max MIN_EPSILON (previous * EPSILON_DECAY)\<close>;
  the rate never drops below \<open>MIN_EPSILON = 0.05\<close>, and from the initial value
  \<open>EPSILON = 0.2\<close> it never increases from one episode to the next.
\<close>

theorem epsilon_decay:
  "\<exists>a b fin h. train n tr = Inr a \<and> train (Suc n) tr = Inr b \<and>
     play_loop (reset_board a) [] = Inr (fin, h) \<and> epsilon fin = epsilon a \<and>
     epsilon b = max MIN_EPSILON (epsilon a * EPSILON_DECAY) \<and>
     MIN_EPSILON \<le> epsilon b \<and>
     (epsilon tr = EPSILON \<longrightarrow> epsilon b \<le> epsilon a) \<and>
     MIN_EPSILON = 5 / 100 \<and> EPSILON_DECAY = 99995 / 100000 \<and> EPSILON = 2 / 10"
proof -
  from train_total [of n tr] obtain a where
    a: "train n tr = Inr a" and lo: "MIN_EPSILON \<le> epsilon tr \<longrightarrow> MIN_EPSILON \<le> epsilon a"
    by blast
  from episode_outcome [of a] obtain fin h where
    p: "play_loop (reset_board a) [] = Inr (fin, h)" and e: "epsilon fin = epsilon a"
    by blast
  from play_one_game_total [of a] obtain b where
    b: "play_one_game a = Inr b" and eb: "epsilon b = max MIN_EPSILON (epsilon a * EPSILON_DECAY)"
    by blast
  have s: "train (Suc n) tr = Inr b" using a b by simp
  have lo_b: "MIN_EPSILON \<le> epsilon b" using eb by simp
  have dec: "epsilon b \<le> epsilon a" if "epsilon tr = EPSILON"
  proof -
    from that lo have "MIN_EPSILON \<le> epsilon a"
      by (simp add: EPSILON_def MIN_EPSILON_def)
    moreover from this have "epsilon a * EPSILON_DECAY \<le> epsilon a"
      by (simp add: EPSILON_DECAY_def MIN_EPSILON_def)
    ultimately show ?thesis using eb by simp
  qed
  have vals: "MIN_EPSILON = 5 / 100 \<and> EPSILON_DECAY = 99995 / 100000 \<and> EPSILON = 2 / 10"
    by (simp add: MIN_EPSILON_def EPSILON_DECAY_def EPSILON_def)
  from a s p e eb lo_b dec vals show ?thesis by blast
qed

theorem epsilon_decay_witness:
  "epsilon (Trainer_init (\<lambda>n. 0)) = EPSILON \<and>
   (\<exists>a b. train 0 (Trainer_init (\<lambda>n. 0)) = Inr a \<and> train 1 (Trainer_init (\<lambda>n. 0)) = Inr b \<and>
      epsilon a = 2 / 10 \<and> epsilon b = 19999 / 100000 \<and> epsilon b \<le> epsilon a)"
proof -
  have i: "epsilon (Trainer_init (\<lambda>n. 0)) = EPSILON" by (simp add: Trainer_init_def)
  from epsilon_decay [of 0 "Trainer_init (\<lambda>n. 0)"] i show ?thesis
    by (auto simp: Trainer_init_def EPSILON_def MIN_EPSILON_def EPSILON_DECAY_def)
qed

text \<open>
  Claim C9 as stated fails: the board is changed by a plain item assignment, which checks
  nothing. Asked to put O on the cell 0 that X occupies, it overwrites the mark and reports
  no error.
\<close>

theorem set_item_overwrites:
  "0 \<notin> set (get_valid_actions [''X'', ''_'', ''_'', ''_'', ''_'', ''_'', ''_'', ''_'', ''_'']) \<and>
   set_item [''X'', ''_'', ''_'', ''_'', ''_'', ''_'', ''_'', ''_'', ''_''] 0 ''O''
     = Inr [''O'', ''_'', ''_'', ''_'', ''_'', ''_'', ''_'', ''_'', ''_'']"
  by (simp add: set_item_def gva_set)

text \<open>
  Claim C9, amended: the item assignment applies any in-range move unchecked, and the
  episode loop only ever hands it valid moves: an action returned by \<open>choose_action\<close> is
  a valid action of the board it was given, and an action returned by \<open>computer_move\<close> is
  a valid action of the board it was given, which it hands back unchanged.
\<close>

theorem applied_moves_valid:
  "(choose_action q eps b ex g = Inr (Some a, g') \<longrightarrow>
      a \<in> set (get_valid_actions b) \<and> b ! a = ''_'' \<and> set_item b a ''X'' = Inr (b[a := ''X''])) \<and>
   (computer_move b s p g = Inr (Some c, b', g') \<longrightarrow>
      b' = b \<and> c \<in> set (get_valid_actions b) \<and> b ! c = ''_'' \<and>
      set_item b' c ''O'' = Inr (b[c := ''O''])) \<and>
   (\<forall>i v. i < length b \<longrightarrow> set_item b i v = Inr (b[i := v]))"
proof -
  have 1: "a \<in> set (get_valid_actions b) \<and> b ! a = ''_'' \<and> set_item b a ''X'' = Inr (b[a := ''X''])"
    if "choose_action q eps b ex g = Inr (Some a, g')"
    using choose_action_valid [OF that] by (simp add: gva_set set_item_def)
  have 2: "b' = b \<and> c \<in> set (get_valid_actions b) \<and> b ! c = ''_'' \<and>
      set_item b' c ''O'' = Inr (b[c := ''O''])"
    if "computer_move b s p g = Inr (Some c, b', g')"
    using computer_move_frame [OF that] by (simp add: gva_set set_item_def)
  have 3: "\<forall>i v. i < length b \<longrightarrow> set_item b i v = Inr (b[i := v])"
    by (simp add: set_item_def)
  from 1 2 3 show ?thesis by blast
qed

theorem applied_moves_valid_witness:
  "choose_action Map.empty (2 / 10) [''X'', ''_'', ''O'', ''_'', ''_'', ''_'', ''_'', ''_'', ''_'']
     True (\<lambda>_. 0) = Inr (Some 1, \<lambda>_. 0) \<and>
   computer_move [''X'', ''_'', ''O'', ''_'', ''_'', ''_'', ''_'', ''_'', ''_''] ''O'' ''X'' (\<lambda>_. 0)
     = Inr (Some 6, [''X'', ''_'', ''O'', ''_'', ''_'', ''_'', ''_'', ''_'', ''_''], \<lambda>_. 0) \<and>
   (1::nat) < length [''X'', ''_'', ''O'', ''_'', ''_'', ''_'', ''_'', ''_'', ''_''] \<and>
   set_item [''X'', ''_'', ''O'', ''_'', ''_'', ''_'', ''_'', ''_'', ''_''] 1 ''X''
     = Inr [''X'', ''X'', ''O'', ''_'', ''_'', ''_'', ''_'', ''_'', ''_'']"
proof -
  let ?b = "[''X'', ''_'', ''O'', ''_'', ''_'', ''_'', ''_'', ''_'', ''_'']"
  have c: "choose_action Map.empty (2 / 10) ?b True (\<lambda>_. 0) = Inr (Some 1, \<lambda>_. 0)"
    by (simp add: choose_action_def random_random_def random_choice_def randbelow_def
          rng_next_def get_valid_actions_def Let_def enumerate_eq_zip upt_rec)
  have m: "computer_move ?b ''O'' ''X'' (\<lambda>_. 0) = Inr (Some 6, ?b, \<lambda>_. 0)"
    by (simp add: computer_move_def check_win_def lines_def set_item_def get_item_def
          enumerate_eq_zip upt_rec)
  from applied_moves_valid
         [of Map.empty "2 / 10" ?b True "\<lambda>_. 0" 1 "\<lambda>_. 0" "''O''" "''X''" 6 ?b]
       c m
  show ?thesis by simp
qed

text \<open>
  Claim C10: an episode never raises. The computer's half of an iteration, which holds
  the opponent-win branch, runs only on the history the agent's half has just extended,
  which is not empty, so reading its last entry succeeds.
\<close>

theorem history_nonempty_on_loss:
  "(\<exists>tr'. play_one_game tr = Inr tr') \<and>
   (agent_turn st h = Inr (Continue, st1, h1) \<longrightarrow>
      h1 \<noteq> [] \<and> loop_body st h = computer_turn st1 h1 \<and> (\<exists>st2. ai_loses x h1 = Inr st2))"
proof -
  have t: "\<exists>tr'. play_one_game tr = Inr tr'"
    using play_one_game_total [of tr] by blast
  have "h1 \<noteq> [] \<and> loop_body st h = computer_turn st1 h1 \<and> (\<exists>st2. ai_loses x h1 = Inr st2)"
    if a: "agent_turn st h = Inr (Continue, st1, h1)"
  proof -
    from agent_turn_Continue [OF a] have ne: "h1 \<noteq> []" by auto
    have "loop_body st h = computer_turn st1 h1" by (simp add: loop_body_def a)
    with ne ai_loses_Inr [OF ne, of x] show ?thesis by simp
  qed
  with t show ?thesis by blast
qed

theorem history_nonempty_on_loss_witness:
  "\<exists>st1. agent_turn (reset_board (Trainer_init (\<lambda>n. 0))) [] =
           Inr (Continue, st1, [(''_________'', 0)]) \<and>
         [(''_________'', 0 :: nat)] \<noteq> [] \<and>
         (\<exists>st2. ai_loses st1 [(''_________'', 0)] = Inr st2)"
proof -
  have "\<exists>st1. agent_turn (reset_board (Trainer_init (\<lambda>n. 0))) [] =
           Inr (Continue, st1, [(''_________'', 0)])"
    by (simp add: episode_eval)
  then obtain st1 where a: "agent_turn (reset_board (Trainer_init (\<lambda>n. 0))) [] =
           Inr (Continue, st1, [(''_________'', 0)])" by blast
  from history_nonempty_on_loss
         [of "Trainer_init (\<lambda>n. 0)" "reset_board (Trainer_init (\<lambda>n. 0))" "[]" st1
             "[(''_________'', 0)]" st1] a
  show ?thesis by blast
qed

end
